theory Spec2Isabelle
  imports Complex_Main
begin

section \<open>Python strings\<close>

text \<open>
  A Python \<open>str\<close> is modelled as a \<open>string\<close> whose characters are the code points below 256.
  \<open>str.strip()\<close>, \<open>str.split()\<close> and the regular expression class \<open>\s\<close> all use the same
  whitespace test (\<open>str.isspace\<close>); below 256 it holds of the twelve code points listed here.
\<close>

definition is_space :: "char \<Rightarrow> bool" where
  "is_space c = (c \<in> {CHR 0x09, CHR 0x0A, CHR 0x0B, CHR 0x0C, CHR 0x0D,
                        CHR 0x1C, CHR 0x1D, CHR 0x1E, CHR 0x1F, CHR 0x20, CHR 0x85, CHR 0xA0})"

text \<open>\<open>s.strip()\<close>: leading and trailing whitespace removed.\<close>

definition strip :: "string \<Rightarrow> string" where
  "strip s = rev (dropWhile is_space (rev (dropWhile is_space s)))"

text \<open>
  \<open>s.split()\<close>: the maximal runs of non-whitespace characters, in order. \<open>split_from cur cs\<close>
  scans \<open>cs\<close> with \<open>cur\<close> the word read so far.
\<close>

fun split_from :: "string \<Rightarrow> string \<Rightarrow> string list" where
  "split_from cur [] = (if cur = [] then [] else [cur])"
| "split_from cur (c # cs) =
     (if is_space c then (if cur = [] then split_from [] cs else cur # split_from [] cs)
      else split_from (cur @ [c]) cs)"

definition py_split :: "string \<Rightarrow> string list" where
  "py_split s = split_from [] s"

text \<open>\<open>len(s.split())\<close>, the word count used throughout the source.\<close>

definition word_count :: "string \<Rightarrow> int" where
  "word_count s = int (length (py_split s))"

text \<open>\<open>" ".join(xs)\<close>.\<close>

fun join :: "string list \<Rightarrow> string" where
  "join [] = []"
| "join [x] = x"
| "join (x # y # ys) = x @ '' '' @ join (y # ys)"

section \<open>Utterance Coalescer: \<open>merge_short_sentences\<close>\<close>

text \<open>
  The \<open>for\<close> loop of \<open>merge_short_sentences\<close> with its two variables \<open>merged\<close> and \<open>buffer\<close>
  passed along; the first equation is the code after the loop. A Python string is true
  when it is not empty.
\<close>

fun merge_loop :: "int \<Rightarrow> string list \<Rightarrow> string \<Rightarrow> string list \<Rightarrow> string list" where
  "merge_loop min_words merged buffer [] =
     (if buffer \<noteq> [] then merged @ [strip buffer] else merged)"
| "merge_loop min_words merged buffer (s # rest) =
     (if word_count s < min_words
      then merge_loop min_words merged (strip (buffer @ '' '' @ s)) rest
      else if buffer \<noteq> []
           then merge_loop min_words ((merged @ [strip buffer]) @ [s]) [] rest
           else merge_loop min_words (merged @ [s]) [] rest)"

definition merge_short_sentences :: "string list \<Rightarrow> int \<Rightarrow> string list" where
  "merge_short_sentences sentences min_words = merge_loop min_words [] [] sentences"

section \<open>Tokenizer: \<open>split_into_sentences\<close>\<close>

definition is_terminal :: "char \<Rightarrow> bool" where
  "is_terminal c = (c \<in> {CHR ''.'', CHR ''!'', CHR ''?''})"

text \<open>
  \<open>re.split(r'(?<=[.!?])\s+', text)\<close>. A match starts right after one of \<open>. ! ?\<close>, at a
  whitespace character, and takes the whole run of whitespace (a whitespace character is no
  terminal, so a match cannot start inside a run). \<open>re_split cur cs\<close> scans \<open>cs\<close> with \<open>cur\<close>
  the piece read so far; the pieces between the matches are returned.
\<close>

function re_split :: "string \<Rightarrow> string \<Rightarrow> string list" where
  "re_split cur [] = [cur]"
| "re_split cur (c # cs) =
     (if is_terminal c \<and> (case cs of [] \<Rightarrow> False | d # _ \<Rightarrow> is_space d)
      then (cur @ [c]) # re_split [] (dropWhile is_space cs)
      else re_split (cur @ [c]) cs)"
  by pat_completeness auto
termination
  by (relation "measure (\<lambda>(cur, cs). length cs)") (auto simp: length_dropWhile_le less_Suc_eq_le)

text \<open>\<open>[s.strip() for s in sents if s.strip()]\<close> over the pieces of the stripped text.\<close>

definition split_into_sentences :: "string \<Rightarrow> string list" where
  "split_into_sentences text =
     map strip (filter (\<lambda>s. strip s \<noteq> []) (re_split [] (strip text)))"

section \<open>Errors and the Embedding Adapter\<close>

text \<open>
  The exceptions the code can raise: numpy's \<open>ValueError\<close>, Python's \<open>IndexError\<close>, and
  whatever the embedding library raises.
\<close>

datatype error = ValueError | IndexError | AdapterError

text \<open>
  The embedding library is outside the repository: its constructor and its \<open>encode\<close> method
  are parameters. Every call of either is recorded as an event, in order, so that a run
  which makes no call has the empty event list.
\<close>

datatype event = LoadModel string | Encode "string list"

record 'm embedding_adapter =
  SentenceTransformer :: "string \<Rightarrow> error + 'm"
  encode :: "'m \<Rightarrow> string list \<Rightarrow> error + real list list"

text \<open>\<open>[sentences[i:i+batch_size] for i in range(0, len(sentences), batch_size)]\<close>.\<close>

function batch_slices :: "nat \<Rightarrow> 'a list \<Rightarrow> 'a list list" where
  "batch_slices batch_size xs =
     (if xs = [] \<or> batch_size = 0 then []
      else take batch_size xs # batch_slices batch_size (drop batch_size xs))"
  by pat_completeness auto
termination
  by (relation "measure (\<lambda>(batch_size, xs). length xs)") auto

declare batch_slices.simps [simp del]

fun encode_batches ::
  "'m embedding_adapter \<Rightarrow> 'm \<Rightarrow> string list list \<Rightarrow> (error + real list list list) \<times> event list" where
  "encode_batches ad embedder [] = (Inr [], [])"
| "encode_batches ad embedder (batch # rest) =
     (case encode ad embedder batch of
        Inl e \<Rightarrow> (Inl e, [Encode batch])
      | Inr emb \<Rightarrow>
          (case encode_batches ad embedder rest of
             (Inl e, evs) \<Rightarrow> (Inl e, Encode batch # evs)
           | (Inr embs, evs) \<Rightarrow> (Inr (emb # embs), Encode batch # evs)))"

text \<open>
  \<open>np.vstack\<close>: the rows of all batches, one under the other. It raises on an empty list of
  arrays and on rows of different widths.
\<close>

definition np_vstack :: "real list list list \<Rightarrow> error + real list list" where
  "np_vstack embs =
     (if embs = [] then Inl ValueError
      else let rows = concat embs
           in if list_all (\<lambda>r. length r = length (hd rows)) rows then Inr rows
              else Inl ValueError)"

text \<open>\<open>range\<close> raises \<open>ValueError\<close> on a zero step.\<close>

definition batch_encode ::
  "'m embedding_adapter \<Rightarrow> 'm \<Rightarrow> string list \<Rightarrow> nat \<Rightarrow> (error + real list list) \<times> event list" where
  "batch_encode ad embedder sentences batch_size =
     (if batch_size = 0 then (Inl ValueError, [])
      else case encode_batches ad embedder (batch_slices batch_size sentences) of
             (Inl e, evs) \<Rightarrow> (Inl e, evs)
           | (Inr embs, evs) \<Rightarrow> (np_vstack embs, evs))"

section \<open>Similarity Profiler: \<open>cosine_similarities\<close>\<close>

text \<open>
  Floating-point numbers are modelled as reals: the values are idealised, the lengths of
  the series and the order comparisons are those of the code.
\<close>

definition np_dot :: "real list \<Rightarrow> real list \<Rightarrow> real" where
  "np_dot a b = sum_list (map2 (*) a b)"

definition linalg_norm :: "real list \<Rightarrow> real" where
  "linalg_norm a = sqrt (sum_list (map (\<lambda>x. x * x) a))"

fun cosine_similarities :: "real list list \<Rightarrow> real list" where
  "cosine_similarities (a # b # rest) =
     (let denom = linalg_norm a * linalg_norm b
      in (if denom = 0 then 0 else np_dot a b / denom)) # cosine_similarities (b # rest)"
| "cosine_similarities [a] = []"
| "cosine_similarities [] = []"

section \<open>Smoother: \<open>smooth\<close>\<close>

text \<open>
  \<open>np.pad(array, (pad, pad), mode='edge')\<close>: an empty array cannot be extended and raises.
\<close>

definition np_pad_edge :: "nat \<Rightarrow> real list \<Rightarrow> error + real list" where
  "np_pad_edge pad a =
     (if a = [] then (if pad = 0 then Inr [] else Inl ValueError)
      else Inr (replicate pad (hd a) @ a @ replicate pad (last a)))"

text \<open>
  \<open>np.convolve(a, v, mode='valid')\<close>: both arguments must be non-empty; the shorter one is the
  kernel \<open>k\<close>, the longer one the signal \<open>x\<close>, and the output has one value for every position
  where the kernel lies inside the signal: entry \<open>n\<close> is the sum of \<open>x[n+j] * k[len(k)-1-j]\<close>.
\<close>

definition np_convolve_valid :: "real list \<Rightarrow> real list \<Rightarrow> error + real list" where
  "np_convolve_valid a v =
     (if a = [] \<or> v = [] then Inl ValueError
      else let x = (if length a < length v then v else a);
               k = (if length a < length v then a else v)
           in Inr (map (\<lambda>n. sum_list (map (\<lambda>j. x ! (n + j) * k ! (length k - 1 - j)) [0..<length k]))
                       [0..<length x - length k + 1]))"

definition smooth :: "real list \<Rightarrow> int \<Rightarrow> error + real list" where
  "smooth array window =
     (if window \<le> 1 then Inr array
      else let pad = nat (window div 2)
           in case np_pad_edge pad array of
                Inl e \<Rightarrow> Inl e
              | Inr padded \<Rightarrow>
                  np_convolve_valid padded
                    (map (\<lambda>one. one / real_of_int window) (replicate (nat window) 1)))"

section \<open>Boundary Extractor: \<open>find_boundaries\<close>\<close>

text \<open>\<open>np.where(smoothed_sims < threshold)[0]\<close>: the indices below the threshold, ascending.\<close>

definition np_where_lt :: "real list \<Rightarrow> real \<Rightarrow> int list" where
  "np_where_lt xs t = map int (filter (\<lambda>i. xs ! i < t) [0..<length xs])"

text \<open>The loop over \<open>lows[1:]\<close>; \<open>boundaries\<close> is never empty there.\<close>

fun boundaries_loop :: "int list \<Rightarrow> int list \<Rightarrow> int list" where
  "boundaries_loop boundaries [] = boundaries"
| "boundaries_loop boundaries (idx # rest) =
     (if idx - last boundaries > 0 then boundaries_loop (boundaries @ [idx]) rest
      else boundaries_loop boundaries rest)"

definition find_boundaries :: "real list \<Rightarrow> real \<Rightarrow> int list" where
  "find_boundaries smoothed_sims threshold =
     (let lows = np_where_lt smoothed_sims threshold
      in if length lows = 0 then [] else boundaries_loop [hd lows] (tl lows))"

section \<open>Segment Length Enforcer: \<open>enforce_min_segment_length\<close>\<close>

type_synonym seg = "int \<times> int"

text \<open>\<open>xs[i]\<close> for a Python integer: a negative index counts from the end.\<close>

definition py_index :: "'a list \<Rightarrow> int \<Rightarrow> error + 'a" where
  "py_index xs i =
     (let n = int (length xs); j = (if i < 0 then i + n else i)
      in if 0 \<le> j \<and> j < n then Inr (xs ! nat j) else Inl IndexError)"

text \<open>
  The first loop: every boundary \<open>b\<close> closes the range \<open>(start, b)\<close> and the next range starts
  at \<open>b + 1\<close>; the last range ends at \<open>len(sentences) - 1\<close>. \<open>n\<close> is \<open>len(sentences)\<close>.
\<close>

fun build_segs :: "int \<Rightarrow> int \<Rightarrow> int list \<Rightarrow> seg list" where
  "build_segs n start [] = [(start, n - 1)]"
| "build_segs n start (b # bs) = (start, b) # build_segs n (b + 1) bs"

text \<open>\<open>sum(len(sentences[i].split()) for i in range(s, e+1))\<close>.\<close>

fun sum_word_counts :: "string list \<Rightarrow> int list \<Rightarrow> error + int" where
  "sum_word_counts sentences [] = Inr 0"
| "sum_word_counts sentences (i # rest) =
     (case py_index sentences i of
        Inl e \<Rightarrow> Inl e
      | Inr s \<Rightarrow> (case sum_word_counts sentences rest of
                   Inl e \<Rightarrow> Inl e
                 | Inr t \<Rightarrow> Inr (word_count s + t)))"

definition seg_word_count :: "string list \<Rightarrow> seg \<Rightarrow> error + int" where
  "seg_word_count sentences seg = sum_word_counts sentences [fst seg..snd seg]"

text \<open>\<open>xs.pop(i)\<close> for an index in range.\<close>

definition pop :: "'a list \<Rightarrow> nat \<Rightarrow> 'a list" where
  "pop xs i = take i xs @ drop (Suc i) xs"

text \<open>
  One pass through the body of the \<open>while\<close> loop, from the state \<open>(segs, i)\<close> with
  \<open>i < len(segs)\<close> to the next state.
\<close>

definition enforce_body :: "string list \<Rightarrow> int \<Rightarrow> seg list \<times> nat \<Rightarrow> error + seg list \<times> nat" where
  "enforce_body sentences min_words st =
     (case st of (segs, i) \<Rightarrow>
       (case seg_word_count sentences (segs ! i) of
          Inl e \<Rightarrow> Inl e
        | Inr count \<Rightarrow>
            if count < min_words then
              if i > 0 then
                Inr (pop (segs[i - 1 := (fst (segs ! (i - 1)), snd (segs ! i))]) i, i - 1)
              else if i + 1 < length segs then
                Inr (pop (segs[i := (fst (segs ! i), snd (segs ! (i + 1)))]) (i + 1), i)
              else Inr (segs, i + 1)
            else Inr (segs, i + 1)))"

lemma enforce_body_decreases:
  assumes "enforce_body sentences min_words (segs, i) = Inr (segs', i')" and "i < length segs"
  shows "2 * length segs' - i' < 2 * length segs - i"
  using assms
  by (auto simp: enforce_body_def pop_def split: sum.splits if_splits)

text \<open>The \<open>while i < len(segs)\<close> loop.\<close>

function enforce_loop :: "string list \<Rightarrow> int \<Rightarrow> seg list \<times> nat \<Rightarrow> error + seg list" where
  "enforce_loop sentences min_words (segs, i) =
     (if i < length segs then
        (case enforce_body sentences min_words (segs, i) of
           Inl e \<Rightarrow> Inl e
         | Inr st \<Rightarrow> enforce_loop sentences min_words st)
      else Inr segs)"
  by pat_completeness auto
termination
  by (relation "measure (\<lambda>(sentences, min_words, segs, i). 2 * length segs - i)")
     (auto dest: enforce_body_decreases)

declare enforce_loop.simps [simp del]

definition enforce_min_segment_length :: "string list \<Rightarrow> int list \<Rightarrow> int \<Rightarrow> error + seg list" where
  "enforce_min_segment_length sentences boundaries min_words =
     enforce_loop sentences min_words (build_segs (int (length sentences)) 0 boundaries, 0)"

text \<open>
  The same loop, returning the range list it holds at the start of every pass and at its
  exit: the first entry is the list as materialized, every later entry is the list after
  one more pass (after a merge, or unchanged when the pass only moved \<open>i\<close>).
\<close>

function enforce_states :: "string list \<Rightarrow> int \<Rightarrow> seg list \<times> nat \<Rightarrow> seg list list" where
  "enforce_states sentences min_words (segs, i) =
     segs # (if i < length segs then
               (case enforce_body sentences min_words (segs, i) of
                  Inl e \<Rightarrow> []
                | Inr st \<Rightarrow> enforce_states sentences min_words st)
             else [])"
  by pat_completeness auto
termination
  by (relation "measure (\<lambda>(sentences, min_words, segs, i). 2 * length segs - i)")
     (auto dest: enforce_body_decreases)

declare enforce_states.simps [simp del]

text \<open>
  The same loop with a bound on the number of passes: \<open>None\<close> when the bound is used up
  before the loop has left.
\<close>

fun enforce_fuel :: "nat \<Rightarrow> string list \<Rightarrow> int \<Rightarrow> seg list \<times> nat \<Rightarrow> (error + seg list) option" where
  "enforce_fuel 0 sentences min_words st = None"
| "enforce_fuel (Suc fuel) sentences min_words st =
     (if snd st < length (fst st) then
        (case enforce_body sentences min_words st of
           Inl e \<Rightarrow> Some (Inl e)
         | Inr st' \<Rightarrow> enforce_fuel fuel sentences min_words st')
      else Some (Inr (fst st)))"

section \<open>Segment Assembler and \<open>segment_transcript\<close>\<close>

text \<open>\<open>xs[lo:hi]\<close>: negative bounds count from the end, bounds out of range are clipped.\<close>

definition py_slice :: "'a list \<Rightarrow> int \<Rightarrow> int \<Rightarrow> 'a list" where
  "py_slice xs lo hi =
     (let n = int (length xs);
          a = (if lo < 0 then max (lo + n) 0 else min lo n);
          b = (if hi < 0 then max (hi + n) 0 else min hi n)
      in take (nat (b - a)) (drop (nat a) xs))"

definition assemble :: "string list \<Rightarrow> seg list \<Rightarrow> string list" where
  "assemble sentences seg_ranges =
     map (\<lambda>(s, e). strip (join (py_slice sentences s (e + 1)))) seg_ranges"

text \<open>
  The result is the returned list or the exception raised, together with the calls made
  to the embedding library.
\<close>

definition segment_transcript ::
  "'m embedding_adapter \<Rightarrow> string \<Rightarrow> int \<Rightarrow> int \<Rightarrow> real \<Rightarrow> int \<Rightarrow> string
     \<Rightarrow> (error + string list) \<times> event list" where
  "segment_transcript ad transcript merge_min_words smooth_window sim_threshold
       min_segment_words embed_model =
     (let sentences = split_into_sentences transcript in
      if length sentences = 0 then (Inr [], [])
      else
        let sentences = merge_short_sentences sentences merge_min_words in
        if length sentences \<le> 4 then (Inr [join sentences], [])
        else
          case SentenceTransformer ad embed_model of
            Inl e \<Rightarrow> (Inl e, [LoadModel embed_model])
          | Inr embedder \<Rightarrow>
              (case batch_encode ad embedder sentences 64 of
                 (Inl e, evs) \<Rightarrow> (Inl e, LoadModel embed_model # evs)
               | (Inr embeddings, evs) \<Rightarrow>
                   (let sims = cosine_similarities embeddings in
                    case smooth sims smooth_window of
                      Inl e \<Rightarrow> (Inl e, LoadModel embed_model # evs)
                    | Inr smoothed \<Rightarrow>
                        (let raw_boundaries = find_boundaries smoothed sim_threshold;
                             boundaries = raw_boundaries
                         in case enforce_min_segment_length sentences boundaries min_segment_words of
                              Inl e \<Rightarrow> (Inl e, LoadModel embed_model # evs)
                            | Inr seg_ranges \<Rightarrow>
                                (Inr (assemble sentences seg_ranges), LoadModel embed_model # evs)))))"

text \<open>
  A stand-in for the embedding library, used to run the whole pipeline on concrete
  transcripts: a unit starting with \<open>Z\<close> is embedded as \<open>(0, 1)\<close>, every other unit as
  \<open>(1, 0)\<close>.
\<close>

definition keyword_adapter :: "unit embedding_adapter" where
  "keyword_adapter =
     \<lparr> SentenceTransformer = (\<lambda>name. Inr ()),
       encode = (\<lambda>embedder batch.
         Inr (map (\<lambda>s. if s \<noteq> [] \<and> hd s = CHR ''Z'' then [0, 1] else [1, 0]) batch)) \<rparr>"

section \<open>Predicates used in the properties\<close>

text \<open>
  In a list of units, no two neighbours are both below the word threshold.
\<close>

definition no_adjacent_short :: "int \<Rightarrow> string list \<Rightarrow> bool" where
  "no_adjacent_short m us =
     (\<forall>i. Suc i < length us \<longrightarrow> m \<le> word_count (us ! i) \<or> m \<le> word_count (us ! Suc i))"

text \<open>A range meets the minimum: its word count is defined and at least \<open>min_words\<close>.\<close>

definition meets_min :: "string list \<Rightarrow> int \<Rightarrow> seg \<Rightarrow> bool" where
  "meets_min sentences min_words seg =
     (case seg_word_count sentences seg of Inl e \<Rightarrow> False | Inr count \<Rightarrow> min_words \<le> count)"

text \<open>
  \<open>covers start stop segs\<close>: the ranges are non-empty, each starts where the one before
  ended plus one, the first starts at \<open>start\<close> and the last ends at \<open>stop\<close>.
\<close>

fun covers :: "int \<Rightarrow> int \<Rightarrow> seg list \<Rightarrow> bool" where
  "covers start stop [] = (start = stop + 1)"
| "covers start stop (seg # rest) =
     (fst seg = start \<and> fst seg \<le> snd seg \<and> snd seg \<le> stop \<and> covers (snd seg + 1) stop rest)"

text \<open>
  The range invariant of the data model, for \<open>n\<close> units, written out index by index: the
  list is not empty, the first start is \<open>0\<close>, the last end is \<open>n - 1\<close>, every next start is
  the previous end plus one, every range is non-empty, and the ranges enumerate
  \<open>0, ..., n - 1\<close> once each, in order.
\<close>

definition range_invariant :: "nat \<Rightarrow> seg list \<Rightarrow> bool" where
  "range_invariant n segs =
     (segs \<noteq> [] \<and> fst (hd segs) = 0 \<and> snd (last segs) = int n - 1
      \<and> list_all (\<lambda>k. fst (segs ! Suc k) = snd (segs ! k) + 1) [0..<length segs - 1]
      \<and> list_all (\<lambda>seg. fst seg \<le> snd seg) segs
      \<and> concat (map (\<lambda>seg. [fst seg..snd seg]) segs) = [0..int n - 1])"

text \<open>A trimmed string: not empty, with no whitespace at either end.\<close>

definition trimmed :: "string \<Rightarrow> bool" where
  "trimmed s = (s \<noteq> [] \<and> \<not> is_space (hd s) \<and> \<not> is_space (last s))"

text \<open>
  The contract of the embedding library: the model loads, and \<open>encode\<close> returns one vector
  of the same width for every string of the batch.
\<close>

definition adapter_ok :: "'m embedding_adapter \<Rightarrow> nat \<Rightarrow> bool" where
  "adapter_ok ad width =
     ((\<forall>name. \<exists>embedder. SentenceTransformer ad name = Inr embedder)
      \<and> (\<forall>embedder batch. \<exists>rows. encode ad embedder batch = Inr rows
             \<and> length rows = length batch \<and> (\<forall>r\<in>set rows. length r = width)))"

section \<open>Running the model\<close>

text \<open>
  The loops unfold one pass at a time, under their loop conditions; with these rules and the
  definitions the simplifier runs the model on a concrete input.
\<close>

lemma enforce_loop_step:
  "i < length segs \<Longrightarrow>
     enforce_loop sentences min_words (segs, i) =
       (case enforce_body sentences min_words (segs, i) of
          Inl e \<Rightarrow> Inl e
        | Inr st \<Rightarrow> enforce_loop sentences min_words st)"
  by (simp add: enforce_loop.simps)

lemma enforce_loop_exit:
  "\<not> i < length segs \<Longrightarrow> enforce_loop sentences min_words (segs, i) = Inr segs"
  by (simp add: enforce_loop.simps)

lemma enforce_states_step:
  "i < length segs \<Longrightarrow>
     enforce_states sentences min_words (segs, i) =
       segs # (case enforce_body sentences min_words (segs, i) of
                 Inl e \<Rightarrow> []
               | Inr st \<Rightarrow> enforce_states sentences min_words st)"
  by (simp add: enforce_states.simps)

lemma enforce_states_exit:
  "\<not> i < length segs \<Longrightarrow> enforce_states sentences min_words (segs, i) = [segs]"
  by (simp add: enforce_states.simps)

lemma batch_slices_step:
  "xs \<noteq> [] \<Longrightarrow> batch_size \<noteq> 0 \<Longrightarrow>
     batch_slices batch_size xs = take batch_size xs # batch_slices batch_size (drop batch_size xs)"
  by (simp add: batch_slices.simps)

lemma batch_slices_Nil: "batch_slices batch_size [] = []"
  by (simp add: batch_slices.simps)

lemmas run_simps =
  segment_transcript_def split_into_sentences_def merge_short_sentences_def word_count_def
  py_split_def is_space_def is_terminal_def strip_def keyword_adapter_def batch_encode_def
  np_vstack_def np_dot_def linalg_norm_def smooth_def np_pad_edge_def np_convolve_valid_def
  find_boundaries_def np_where_lt_def enforce_min_segment_length_def enforce_body_def
  seg_word_count_def py_index_def pop_def assemble_def py_slice_def
  enforce_loop_step enforce_loop_exit batch_slices_step batch_slices_Nil
  upt_conv_Cons upto_rec1 numeral_eq_Suc Let_def

section \<open>Properties of the Utterance Coalescer\<close>

lemma no_adjacent_short_snoc:
  assumes "no_adjacent_short m us"
    and "us = [] \<or> m \<le> word_count (last us) \<or> m \<le> word_count u"
  shows "no_adjacent_short m (us @ [u])"
  unfolding no_adjacent_short_def
proof (intro allI impI)
  fix i
  assume i: "Suc i < length (us @ [u])"
  show "m \<le> word_count ((us @ [u]) ! i) \<or> m \<le> word_count ((us @ [u]) ! Suc i)"
  proof (cases "Suc i < length us")
    case True
    with assms(1) show ?thesis
      by (simp add: no_adjacent_short_def nth_append)
  next
    case False
    with i have eq: "Suc i = length us" by simp
    then have ne: "us \<noteq> []" by auto
    have "last us = us ! i" using eq ne by (metis diff_Suc_1 last_conv_nth)
    with assms(2) ne eq show ?thesis
      by (auto simp: nth_append)
  qed
qed

lemma merge_loop_no_adjacent_short:
  assumes "no_adjacent_short m merged"
    and "merged = [] \<or> m \<le> word_count (last merged)"
  shows "no_adjacent_short m (merge_loop m merged buffer rest)"
  using assms
proof (induction rest arbitrary: merged buffer)
  case Nil
  then show ?case by (auto intro: no_adjacent_short_snoc)
next
  case (Cons s rest)
  note inv = Cons.prems
  show ?case
  proof (cases "word_count s < m")
    case True
    with Cons show ?thesis by simp
  next
    case False
    then have big: "m \<le> word_count s" by simp
    show ?thesis
    proof (cases "buffer = []")
      case True
      have a: "no_adjacent_short m (merged @ [s])"
        using no_adjacent_short_snoc [OF inv(1)] big by blast
      have "no_adjacent_short m (merge_loop m (merged @ [s]) [] rest)"
        using Cons.IH [OF a] big by simp
      with True big show ?thesis by simp
    next
      case False
      have a: "no_adjacent_short m (merged @ [strip buffer])"
        using no_adjacent_short_snoc [OF inv(1)] inv(2) by blast
      have b: "no_adjacent_short m ((merged @ [strip buffer]) @ [s])"
        using no_adjacent_short_snoc [OF a] big by blast
      have "no_adjacent_short m (merge_loop m ((merged @ [strip buffer]) @ [s]) [] rest)"
        using Cons.IH [OF b] big by simp
      with False big show ?thesis by simp
    qed
  qed
qed

text \<open>
  C1 (as stated, refuted). With \<open>merge_min_words = 6\<close> the sentences \<open>ok.\<close> and
  \<open>one two three four five six.\<close> come out as two units: the buffer holding \<open>ok.\<close> is
  flushed when the six-word sentence arrives, so the first unit has one word although it
  is not the final remainder.
\<close>

theorem merge_short_sentences_first_unit_short:
  "merge_short_sentences [''ok.'', ''one two three four five six.''] 6
     = [''ok.'', ''one two three four five six.'']
   \<and> word_count (merge_short_sentences [''ok.'', ''one two three four five six.''] 6 ! 0) < 6
   \<and> 0 < length (merge_short_sentences [''ok.'', ''one two three four five six.''] 6) - 1"
  by (simp add: merge_short_sentences_def word_count_def py_split_def is_space_def strip_def)

text \<open>
  C1 (amended). For every sentence sequence and every \<open>merge_min_words\<close>, a unit emitted by
  \<open>merge_short_sentences\<close> with fewer than \<open>merge_min_words\<close> words is a flushed buffer: it is
  the last unit or the unit right after it has at least \<open>merge_min_words\<close> words. Of any two
  neighbouring units at least one has \<open>merge_min_words\<close> words.
\<close>

theorem merge_short_sentences_no_adjacent_short:
  "Suc i < length (merge_short_sentences sentences min_words) \<Longrightarrow>
     min_words \<le> word_count (merge_short_sentences sentences min_words ! i)
   \<or> min_words \<le> word_count (merge_short_sentences sentences min_words ! Suc i)"
proof -
  assume i: "Suc i < length (merge_short_sentences sentences min_words)"
  have "no_adjacent_short min_words (merge_loop min_words [] [] sentences)"
    by (rule merge_loop_no_adjacent_short) (simp_all add: no_adjacent_short_def)
  with i show ?thesis
    by (simp add: merge_short_sentences_def no_adjacent_short_def)
qed

theorem merge_short_sentences_no_adjacent_short_witness:
  "Suc 0 < length (merge_short_sentences [''ok.'', ''one two three four five six.'', ''yes.''] 6)
   \<and> word_count (merge_short_sentences [''ok.'', ''one two three four five six.'', ''yes.''] 6 ! 0) < 6
   \<and> 6 \<le> word_count (merge_short_sentences [''ok.'', ''one two three four five six.'', ''yes.''] 6 ! Suc 0)"
  using merge_short_sentences_no_adjacent_short
    [of 0 "[''ok.'', ''one two three four five six.'', ''yes.'']" 6]
  by (simp add: merge_short_sentences_def word_count_def py_split_def is_space_def strip_def)

section \<open>Properties of the Smoother\<close>

lemma smooth_noop: "window \<le> 1 \<Longrightarrow> smooth array window = Inr array"
  by (simp add: smooth_def)

lemma length_np_convolve_valid:
  "a \<noteq> [] \<Longrightarrow> v \<noteq> [] \<Longrightarrow>
     \<exists>out. np_convolve_valid a v = Inr out
       \<and> length out = max (length a) (length v) - min (length a) (length v) + 1"
  by (auto simp: np_convolve_valid_def Let_def)

lemma smooth_length:
  assumes "array \<noteq> []" and "1 < window"
  shows "\<exists>out. smooth array window = Inr out
           \<and> length out = length array + 2 * nat (window div 2) - nat window + 1"
proof -
  let ?pad = "nat (window div 2)"
  let ?padded = "replicate ?pad (hd array) @ array @ replicate ?pad (last array)"
  let ?kernel = "map (\<lambda>one. one / real_of_int window) (replicate (nat window) 1)"
  have p: "np_pad_edge ?pad array = Inr ?padded"
    using assms(1) by (simp add: np_pad_edge_def)
  have "?padded \<noteq> []" "?kernel \<noteq> []" using assms by auto
  from length_np_convolve_valid [OF this]
  obtain out where o: "np_convolve_valid ?padded ?kernel = Inr out"
    and l: "length out = max (length ?padded) (length ?kernel) - min (length ?padded) (length ?kernel) + 1"
    by blast
  have lp: "length ?padded = length array + 2 * ?pad" by simp
  have lk: "length ?kernel = nat window" by simp
  have "window \<le> 2 * (window div 2) + 1" by linarith
  then have "nat window \<le> 2 * ?pad + 1" using assms(2) by linarith
  moreover have "0 < length array" using assms(1) by simp
  ultimately have "length out = length array + 2 * ?pad - nat window + 1"
    using l [unfolded lp lk] by linarith
  moreover have "smooth array window = Inr out"
    using assms(2) p o by (simp add: smooth_def Let_def)
  ultimately show ?thesis by blast
qed

lemma smooth_length_odd:
  assumes "array \<noteq> []" and "1 < window" and "odd window"
  shows "\<exists>out. smooth array window = Inr out \<and> length out = length array"
proof -
  from smooth_length [OF assms(1,2)] obtain out where
    o: "smooth array window = Inr out"
    and l: "length out = length array + 2 * nat (window div 2) - nat window + 1" by blast
  have "2 * nat (window div 2) + 1 = nat window"
    using assms(2,3) by (auto elim!: oddE simp: nat_add_distrib nat_mult_distrib)
  moreover have "0 < length array" using assms(1) by simp
  ultimately have "length out = length array" using l by linarith
  with o show ?thesis by blast
qed

lemma smooth_length_even:
  assumes "array \<noteq> []" and "1 < window" and "even window"
  shows "\<exists>out. smooth array window = Inr out \<and> length out = length array + 1"
proof -
  from smooth_length [OF assms(1,2)] obtain out where
    o: "smooth array window = Inr out"
    and l: "length out = length array + 2 * nat (window div 2) - nat window + 1" by blast
  have "2 * nat (window div 2) = nat window"
    using assms(2,3) by (auto elim!: evenE simp: nat_mult_distrib)
  with l have "length out = length array + 1" by linarith
  with o show ?thesis by blast
qed

lemma smooth_empty: "1 < window \<Longrightarrow> smooth [] window = Inl ValueError"
proof -
  assume "1 < window"
  then have "0 < window div 2" by simp
  then have "nat (window div 2) \<noteq> 0" by simp
  with \<open>1 < window\<close> show ?thesis
    by (simp add: smooth_def np_pad_edge_def Let_def)
qed

text \<open>
  C2 (the code departs from the claim). For the series \<open>[1, 2, 3]\<close> and the even window \<open>2\<close>,
  \<open>smooth\<close> returns four values: one more than the input has. The padding adds
  \<open>2 * (window // 2) = window\<close> values and the valid convolution removes \<open>window - 1\<close>.
  The lemmas above give the general picture: the length is kept for odd windows and for
  \<open>window \<le> 1\<close>, grows by one for every even window, and an empty series raises.
\<close>

theorem smooth_even_window_one_longer:
  "smooth [1, 2, 3] 2 = Inr [1, 3 / 2, 5 / 2, 3]"
  by (simp add: smooth_def np_pad_edge_def np_convolve_valid_def upt_rec numeral_eq_Suc)

section \<open>Properties of the Boundary Extractor\<close>

lemma boundaries_loop_ascending:
  "sorted_wrt (<) (bs @ rest) \<Longrightarrow> bs \<noteq> [] \<Longrightarrow> boundaries_loop bs rest = bs @ rest"
proof (induction rest arbitrary: bs)
  case Nil
  then show ?case by simp
next
  case (Cons idx rest)
  have "last bs \<in> set bs" using Cons.prems(2) by simp
  then have "last bs < idx" using Cons.prems(1) by (auto simp: sorted_wrt_append)
  moreover have "boundaries_loop (bs @ [idx]) rest = (bs @ [idx]) @ rest"
    using Cons.prems by (intro Cons.IH) auto
  ultimately show ?case by simp
qed

lemma np_where_lt_ascending: "sorted_wrt (<) (np_where_lt xs t)"
  unfolding np_where_lt_def
  by (simp add: sorted_wrt_map sorted_wrt_filter)

lemma find_boundaries_eq_lows: "find_boundaries xs t = np_where_lt xs t"
proof (cases "np_where_lt xs t")
  case Nil
  then show ?thesis by (simp add: find_boundaries_def)
next
  case (Cons l ls)
  have "sorted_wrt (<) ([l] @ ls)" using np_where_lt_ascending [of xs t] Cons by simp
  then have "boundaries_loop [l] ls = [l] @ ls" by (rule boundaries_loop_ascending) simp
  with Cons show ?thesis by (simp add: find_boundaries_def)
qed

lemma length_filter_index: "length (filter (\<lambda>i. P (xs ! i)) [0..<length xs]) = length (filter P xs)"
proof (induction xs rule: rev_induct)
  case Nil
  then show ?case by simp
next
  case (snoc x xs)
  have "filter (\<lambda>i. P ((xs @ [x]) ! i)) [0..<length xs] = filter (\<lambda>i. P (xs ! i)) [0..<length xs]"
    by (rule filter_cong) (auto simp: nth_append)
  with snoc show ?case by simp
qed

lemma length_np_where_lt: "length (np_where_lt xs t) = length (filter (\<lambda>x. x < t) xs)"
  using length_filter_index [of "\<lambda>x. x < t" xs] by (simp add: np_where_lt_def)

lemma length_filter_mono:
  "(\<And>x. P x \<Longrightarrow> Q x) \<Longrightarrow> length (filter P xs) \<le> length (filter Q xs)"
  by (induction xs) auto

text \<open>
  C7. For a fixed smoothed series and thresholds \<open>t1 \<le> t2\<close>, \<open>find_boundaries\<close> returns at
  least as many candidate boundaries at \<open>t2\<close> as at \<open>t1\<close>: raising \<open>sim_threshold\<close> never
  lowers the boundary count.
\<close>

theorem find_boundaries_threshold_monotone:
  "t1 \<le> t2 \<Longrightarrow>
     length (find_boundaries smoothed_sims t1) \<le> length (find_boundaries smoothed_sims t2)"
proof -
  assume le: "t1 \<le> t2"
  have "length (filter (\<lambda>x. x < t1) smoothed_sims) \<le> length (filter (\<lambda>x. x < t2) smoothed_sims)"
    by (rule length_filter_mono) (use le in simp)
  then show ?thesis
    by (simp add: find_boundaries_eq_lows length_np_where_lt)
qed

theorem find_boundaries_threshold_monotone_witness:
  "(0.28::real) \<le> 0.5
   \<and> find_boundaries [0.9, 0.1, 0.4, 0.9] 0.28 = [1]
   \<and> find_boundaries [0.9, 0.1, 0.4, 0.9] 0.5 = [1, 2]
   \<and> length (find_boundaries [0.9, 0.1, 0.4, 0.9] 0.28)
        \<le> length (find_boundaries [0.9, 0.1, 0.4, 0.9] 0.5)"
  using find_boundaries_threshold_monotone [of "0.28" "0.5" "[0.9, 0.1, 0.4, 0.9]"]
  by (simp add: find_boundaries_def np_where_lt_def upt_rec)

section \<open>Short transcripts\<close>

lemma strip_all_space: "list_all is_space t \<Longrightarrow> strip t = []"
proof -
  assume "list_all is_space t"
  then have d: "dropWhile is_space t = []" by (metis dropWhile_eq_Nil_conv list_all_iff)
  show ?thesis unfolding strip_def d by simp
qed

lemma strip_Nil: "strip [] = []"
  by (simp add: strip_def)

text \<open>
  C9. For an empty or whitespace-only transcript the Tokenizer returns the empty sentence
  list, and \<open>segment_transcript\<close> returns the empty segment list (not an error) with no call
  to the embedding library.
\<close>

theorem segment_transcript_blank:
  "list_all is_space transcript \<Longrightarrow>
     split_into_sentences transcript = []
   \<and> segment_transcript ad transcript merge_min_words smooth_window sim_threshold
         min_segment_words embed_model = (Inr [], [])"
  by (simp add: segment_transcript_def split_into_sentences_def strip_all_space strip_Nil)

theorem segment_transcript_blank_witness:
  "list_all is_space [CHR '' '', CHR 0x0A, CHR 0x09]
   \<and> split_into_sentences [CHR '' '', CHR 0x0A, CHR 0x09] = []
   \<and> segment_transcript keyword_adapter [CHR '' '', CHR 0x0A, CHR 0x09] 6 3 0.28 35 ''all-MiniLM-L6-v2''
       = (Inr [], [])"
  using segment_transcript_blank
    [of "[CHR '' '', CHR 0x0A, CHR 0x09]" keyword_adapter 6 3 "0.28" 35 "''all-MiniLM-L6-v2''"]
  by (simp add: is_space_def)

lemma merge_short_sentences_Nil: "merge_short_sentences [] m = []"
  by (simp add: merge_short_sentences_def)

text \<open>
  C8. When the transcript coalesces to between one and four units, \<open>segment_transcript\<close>
  returns exactly one segment, the space-join of the units, and makes no call to the
  embedding library (so no similarity, smoothing or boundary extraction takes place).
\<close>

theorem segment_transcript_short_circuit:
  assumes "units = merge_short_sentences (split_into_sentences transcript) merge_min_words"
    and "1 \<le> length units" and "length units \<le> 4"
  shows "segment_transcript ad transcript merge_min_words smooth_window sim_threshold
           min_segment_words embed_model = (Inr [join units], [])"
proof -
  have "split_into_sentences transcript \<noteq> []"
    using assms(1,2) by (auto simp: merge_short_sentences_Nil)
  with assms show ?thesis
    by (simp add: segment_transcript_def Let_def)
qed

theorem segment_transcript_short_circuit_witness:
  "merge_short_sentences
       (split_into_sentences ''Hello there.   This sentence has six words total.  '') 6
     = [''Hello there.'', ''This sentence has six words total.'']
   \<and> segment_transcript keyword_adapter
         ''Hello there.   This sentence has six words total.  '' 6 3 0.28 35 ''all-MiniLM-L6-v2''
       = (Inr [''Hello there. This sentence has six words total.''], [])
   \<and> merge_short_sentences
         (split_into_sentences
            ''Okay. One two three four five six. Yes! Seven eight nine ten eleven twelve?'') 6
       = [''Okay.'', ''One two three four five six.'', ''Yes!'',
          ''Seven eight nine ten eleven twelve?'']
   \<and> segment_transcript keyword_adapter
         ''Okay. One two three four five six. Yes! Seven eight nine ten eleven twelve?''
         6 3 0.28 35 ''all-MiniLM-L6-v2''
       = (Inr [''Okay. One two three four five six. Yes! Seven eight nine ten eleven twelve?''],
          [])"
proof -
  let ?two = "''Hello there.   This sentence has six words total.  ''"
  let ?four = "''Okay. One two three four five six. Yes! Seven eight nine ten eleven twelve?''"
  have u2: "merge_short_sentences (split_into_sentences ?two) 6
              = [''Hello there.'', ''This sentence has six words total.'']"
    by (simp add: run_simps)
  have u4: "merge_short_sentences (split_into_sentences ?four) 6
              = [''Okay.'', ''One two three four five six.'', ''Yes!'',
                 ''Seven eight nine ten eleven twelve?'']"
    by (simp add: run_simps)
  have r2: "segment_transcript keyword_adapter ?two 6 3 0.28 35 ''all-MiniLM-L6-v2''
              = (Inr [''Hello there. This sentence has six words total.''], [])"
    using segment_transcript_short_circuit
      [OF u2 [symmetric], of keyword_adapter 3 "0.28" 35 "''all-MiniLM-L6-v2''"]
    by simp
  have r4: "segment_transcript keyword_adapter ?four 6 3 0.28 35 ''all-MiniLM-L6-v2''
              = (Inr [''Okay. One two three four five six. Yes! Seven eight nine ten eleven twelve?''],
                 [])"
    using segment_transcript_short_circuit
      [OF u4 [symmetric], of keyword_adapter 3 "0.28" 35 "''all-MiniLM-L6-v2''"]
    by simp
  from u2 r2 u4 r4 show ?thesis by blast
qed

section \<open>Negative parameters\<close>

lemma word_count_nonneg: "0 \<le> word_count s"
  by (simp add: word_count_def)

lemma merge_loop_nonpositive:
  "m \<le> 0 \<Longrightarrow> merge_loop m merged buffer rest = merge_loop 0 merged buffer rest"
proof (induction rest arbitrary: merged buffer)
  case Nil
  then show ?case by simp
next
  case (Cons s rest)
  have "\<not> word_count s < m" "\<not> word_count s < 0"
    using word_count_nonneg [of s] Cons.prems by auto
  then show ?case using Cons by simp
qed

lemma sum_word_counts_nonneg: "sum_word_counts sentences idxs = Inr c \<Longrightarrow> 0 \<le> c"
proof (induction idxs arbitrary: c)
  case Nil
  then show ?case by simp
next
  case (Cons i idxs)
  then show ?case
    using word_count_nonneg by (fastforce split: sum.splits)
qed

lemma seg_word_count_nonneg: "seg_word_count sentences seg = Inr c \<Longrightarrow> 0 \<le> c"
  unfolding seg_word_count_def by (rule sum_word_counts_nonneg)

lemma enforce_body_nonpositive:
  "m \<le> 0 \<Longrightarrow> enforce_body sentences m st = enforce_body sentences 0 st"
  by (cases st) (auto simp: enforce_body_def split: sum.splits dest: seg_word_count_nonneg)

lemma enforce_loop_nonpositive:
  "m \<le> 0 \<Longrightarrow> enforce_loop sentences m st = enforce_loop sentences 0 st"
proof (induction sentences m st rule: enforce_loop.induct)
  case (1 sentences min_words segs i)
  show ?case
  proof (cases "i < length segs")
    case False
    then show ?thesis by (simp add: enforce_loop.simps)
  next
    case True
    have eq: "enforce_body sentences 0 (segs, i) = enforce_body sentences min_words (segs, i)"
      using enforce_body_nonpositive [OF "1.prems"] by simp
    show ?thesis
    proof (cases "enforce_body sentences min_words (segs, i)")
      case (Inl e)
      with True eq show ?thesis
        by (simp add: enforce_loop.simps [of _ _ segs i])
    next
      case (Inr st')
      have "enforce_loop sentences min_words st' = enforce_loop sentences 0 st'"
        using "1.IH" [OF True Inr "1.prems"] .
      with True Inr eq show ?thesis
        by (simp add: enforce_loop.simps [of _ _ segs i])
    qed
  qed
qed

lemma smooth_nonpositive: "w \<le> 0 \<Longrightarrow> smooth array w = smooth array 0"
  by (simp add: smooth_def)

lemma merge_short_sentences_max: "merge_short_sentences ss m = merge_short_sentences ss (max m 0)"
  using merge_loop_nonpositive [of m "[]" "[]" ss]
  by (cases "m \<le> 0") (simp_all add: merge_short_sentences_def max_def)

lemma smooth_max: "smooth array w = smooth array (max w 0)"
  using smooth_nonpositive [of w array] by (cases "w \<le> 0") (simp_all add: max_def)

lemma enforce_min_segment_length_max:
  "enforce_min_segment_length ss bs m = enforce_min_segment_length ss bs (max m 0)"
  using enforce_loop_nonpositive [of m ss]
  by (cases "m \<le> 0") (simp_all add: enforce_min_segment_length_def max_def)

text \<open>
  C3 (amended). \<open>segment_transcript\<close> validates no parameter. For every transcript and every
  configuration, a negative \<open>merge_min_words\<close>, \<open>smooth_window\<close> or \<open>min_segment_words\<close> is
  accepted and the run is the one with that parameter set to \<open>0\<close>: nothing is coalesced,
  nothing is smoothed, no range is merged.
\<close>

theorem segment_transcript_negative_as_zero:
  "segment_transcript ad transcript merge_min_words smooth_window sim_threshold
       min_segment_words embed_model
   = segment_transcript ad transcript (max merge_min_words 0) (max smooth_window 0) sim_threshold
       (max min_segment_words 0) embed_model"
  by (simp only: segment_transcript_def merge_short_sentences_max [symmetric]
      smooth_max [symmetric] enforce_min_segment_length_max [symmetric])


text \<open>
  C3 (as stated, refuted). With all three parameters negative the call is not rejected: the
  model is loaded, the five units are encoded and two segments are returned.
\<close>

theorem segment_transcript_accepts_negative:
  "segment_transcript keyword_adapter ''A. B. C. D. Z.'' (-1) (-1) 0.28 (-1) ''all-MiniLM-L6-v2''
   = (Inr [''A. B. C. D.'', ''Z.''],
      [LoadModel ''all-MiniLM-L6-v2'', Encode [''A.'', ''B.'', ''C.'', ''D.'', ''Z.'']])"
  by (simp add: run_simps)

theorem segment_transcript_negative_as_zero_witness:
  "segment_transcript keyword_adapter ''A. B. C. D. Z.'' (-3) (-2) 0.28 (-35) ''all-MiniLM-L6-v2''
   = segment_transcript keyword_adapter ''A. B. C. D. Z.'' 0 0 0.28 0 ''all-MiniLM-L6-v2''"
  using segment_transcript_negative_as_zero
    [of keyword_adapter "''A. B. C. D. Z.''" "-3" "-2" "0.28" "-35" "''all-MiniLM-L6-v2''"]
  by simp

section \<open>Properties of the Segment Length Enforcer\<close>

lemma split_at_pair:
  assumes "0 < i" and "i < length segs"
  shows "segs = take (i - 1) segs @ segs ! (i - 1) # segs ! i # drop (Suc i) segs"
proof -
  have "segs = take (i - 1) segs @ segs ! (i - 1) # drop (Suc (i - 1)) segs"
    using assms by (intro id_take_nth_drop) simp
  moreover have "drop (Suc (i - 1)) segs = segs ! i # drop (Suc i) segs"
    using assms by (simp add: Cons_nth_drop_Suc)
  ultimately show ?thesis by simp
qed

lemma pop_merged: "pop ((xs @ a # b # ys)[length xs := v]) (Suc (length xs)) = xs @ v # ys"
  by (simp add: pop_def)

lemma enforce_body_cases:
  assumes "i < length segs" and "enforce_body sentences m (segs, i) = Inr (segs', i')"
  shows "(segs' = segs \<and> i' = Suc i \<and> (meets_min sentences m (segs ! i) \<or> (i = 0 \<and> length segs = 1)))
       \<or> (\<exists>xs a b ys. segs = xs @ a # b # ys \<and> segs' = xs @ (fst a, snd b) # ys
              \<and> i' = length xs \<and> (i = Suc (length xs) \<or> (i = 0 \<and> xs = [])))"
proof (cases "seg_word_count sentences (segs ! i)")
  case (Inl e)
  with assms show ?thesis by (simp add: enforce_body_def)
next
  case (Inr count)
  show ?thesis
  proof (cases "count < m")
    case False
    with Inr assms show ?thesis by (auto simp: enforce_body_def meets_min_def)
  next
    case short: True
    show ?thesis
    proof (cases "0 < i")
      case True
      let ?xs = "take (i - 1) segs" and ?a = "segs ! (i - 1)" and ?b = "segs ! i"
        and ?ys = "drop (Suc i) segs"
      have dec: "segs = ?xs @ ?a # ?b # ?ys" using split_at_pair [OF True assms(1)] .
      have len: "length ?xs = i - 1" using assms(1) by simp
      have "pop (segs[i - 1 := (fst ?a, snd ?b)]) i = ?xs @ (fst ?a, snd ?b) # ?ys"
        using pop_merged [of ?xs ?a ?b ?ys "(fst ?a, snd ?b)"] dec len True by simp
      moreover have "segs' = pop (segs[i - 1 := (fst ?a, snd ?b)]) i" "i' = i - 1"
        using assms(2) Inr short True by (auto simp: enforce_body_def)
      ultimately have "segs' = ?xs @ (fst ?a, snd ?b) # ?ys \<and> i' = length ?xs \<and> i = Suc (length ?xs)"
        using len True by simp
      with dec show ?thesis by blast
    next
      case i0: False
      then have i: "i = 0" by simp
      show ?thesis
      proof (cases "1 < length segs")
        case True
        then obtain a b ys where dec: "segs = a # b # ys"
          by (cases segs; cases "tl segs") auto
        have "segs' = (fst a, snd b) # ys" "i' = 0"
          using assms(2) Inr short i dec by (simp_all add: enforce_body_def pop_def)
        with dec i show ?thesis by fastforce
      next
        case False
        with assms(1) i have "length segs = 1" by (cases segs) auto
        moreover have "segs' = segs" "i' = Suc i"
          using assms(2) Inr short i False by (simp_all add: enforce_body_def)
        ultimately show ?thesis using i by simp
      qed
    qed
  qed
qed

lemma enforce_fuel_enough:
  "2 * length segs - i < fuel \<Longrightarrow>
     enforce_fuel fuel sentences min_words (segs, i)
       = Some (enforce_loop sentences min_words (segs, i))"
proof (induction fuel arbitrary: segs i)
  case 0
  then show ?case by simp
next
  case (Suc fuel)
  show ?case
  proof (cases "i < length segs")
    case False
    then show ?thesis by (simp add: enforce_loop_exit)
  next
    case True
    show ?thesis
    proof (cases "enforce_body sentences min_words (segs, i)")
      case (Inl e)
      with True show ?thesis by (simp add: enforce_loop_step)
    next
      case (Inr st')
      obtain segs' i' where st': "st' = (segs', i')" by (cases st')
      have "2 * length segs' - i' < 2 * length segs - i"
        using enforce_body_decreases [of sentences min_words segs i segs' i'] Inr st' True by simp
      with Suc.prems have "2 * length segs' - i' < fuel" by simp
      then have "enforce_fuel fuel sentences min_words (segs', i')
                   = Some (enforce_loop sentences min_words (segs', i'))"
        by (rule Suc.IH)
      with True Inr st' show ?thesis by (simp add: enforce_loop_step)
    qed
  qed
qed

lemma length_build_segs: "length (build_segs n start bs) = Suc (length bs)"
  by (induction bs arbitrary: start) auto

lemma enforce_body_count:
  assumes "i < length segs" and "enforce_body sentences m (segs, i) = Inr (segs', i')"
  shows "(segs' = segs \<and> i' = Suc i)
       \<or> (length segs = Suc (length segs') \<and> 1 \<le> length segs' \<and> i' \<le> i)"
  using enforce_body_cases [OF assms] by auto

text \<open>
  C6. The merge loop of the Enforcer terminates for every unit list, boundary list and
  threshold: run with a bound of \<open>2 * len(boundaries) + 3\<close> passes it has left the loop with
  the result of \<open>enforce_min_segment_length\<close> (a range list or the exception raised). Every
  pass either keeps the list and moves \<open>i\<close> forward by one, or merges two ranges: then the
  list is one shorter, still holds at least one range, and \<open>i\<close> does not grow.
\<close>

theorem enforce_loop_terminates:
  "enforce_fuel (2 * length boundaries + 3) sentences min_words
       (build_segs (int (length sentences)) 0 boundaries, 0)
     = Some (enforce_min_segment_length sentences boundaries min_words)
   \<and> (\<forall>segs i segs' i'.
         i < length segs \<and> enforce_body sentences min_words (segs, i) = Inr (segs', i')
         \<longrightarrow> (segs' = segs \<and> i' = Suc i)
           \<or> (length segs = Suc (length segs') \<and> 1 \<le> length segs' \<and> i' \<le> i))"
proof
  show "enforce_fuel (2 * length boundaries + 3) sentences min_words
          (build_segs (int (length sentences)) 0 boundaries, 0)
        = Some (enforce_min_segment_length sentences boundaries min_words)"
    unfolding enforce_min_segment_length_def
    by (rule enforce_fuel_enough) (simp add: length_build_segs)
next
  show "\<forall>segs i segs' i'.
         i < length segs \<and> enforce_body sentences min_words (segs, i) = Inr (segs', i')
         \<longrightarrow> (segs' = segs \<and> i' = Suc i)
           \<or> (length segs = Suc (length segs') \<and> 1 \<le> length segs' \<and> i' \<le> i)"
    using enforce_body_count by blast
qed

lemma enforce_loop_min_size:
  assumes "enforce_loop sentences m st = Inr out"
    and "\<forall>j<snd st. j < length (fst st) \<longrightarrow> meets_min sentences m (fst st ! j)"
  shows "length out = 1 \<or> list_all (meets_min sentences m) out"
  using assms
proof (induction sentences m st arbitrary: out rule: enforce_loop.induct)
  case (1 sentences min_words segs i)
  show ?case
  proof (cases "i < length segs")
    case False
    then have "out = segs" using "1.prems"(1) by (simp add: enforce_loop_exit)
    moreover have "\<forall>j<length segs. meets_min sentences min_words (segs ! j)"
      using "1.prems"(2) False by auto
    ultimately show ?thesis by (auto simp: list_all_length)
  next
    case True
    then obtain st' where body: "enforce_body sentences min_words (segs, i) = Inr st'"
      and loop: "enforce_loop sentences min_words st' = Inr out"
      using "1.prems"(1) by (auto simp: enforce_loop_step split: sum.splits)
    obtain segs' i' where st': "st' = (segs', i')" by (cases st')
    note IH = "1.IH" [OF True body loop]
    from enforce_body_cases [OF True body [unfolded st']]
    consider
      (stay) "segs' = segs" "i' = Suc i" "meets_min sentences min_words (segs ! i)"
    | (single) "segs' = segs" "i' = Suc i" "i = 0" "length segs = 1"
    | (merge) xs a b ys where "segs = xs @ a # b # ys" "segs' = xs @ (fst a, snd b) # ys"
        "i' = length xs" "i = Suc (length xs) \<or> (i = 0 \<and> xs = [])"
      by blast
    then show ?thesis
    proof cases
      case stay
      have "\<forall>j<snd st'. j < length (fst st') \<longrightarrow> meets_min sentences min_words (fst st' ! j)"
        using "1.prems"(2) stay st' by (auto simp: less_Suc_eq)
      then show ?thesis by (rule IH)
    next
      case single
      have "enforce_loop sentences min_words (segs, Suc 0) = Inr segs"
        using single by (simp add: enforce_loop_exit)
      with loop st' single have "out = segs" by simp
      with single show ?thesis by simp
    next
      case merge
      have "\<forall>j<snd st'. j < length (fst st') \<longrightarrow> meets_min sentences min_words (fst st' ! j)"
      proof (intro allI impI)
        fix j assume j: "j < snd st'" "j < length (fst st')"
        then have jx: "j < length xs" using st' merge by simp
        then have "j < i" using merge by auto
        moreover have "j < length segs" using jx merge by simp
        ultimately have "meets_min sentences min_words (segs ! j)" using "1.prems"(2) by simp
        then show "meets_min sentences min_words (fst st' ! j)"
          using jx merge st' by (simp add: nth_append)
      qed
      then show ?thesis by (rule IH)
    qed
  qed
qed

lemma covers_build_segs:
  assumes "sorted_wrt (<) bs" and "\<forall>b\<in>set bs. start \<le> b \<and> b < stop" and "start \<le> stop"
  shows "covers start stop (build_segs (stop + 1) start bs)"
  using assms
proof (induction bs arbitrary: start)
  case Nil
  then show ?case by simp
next
  case (Cons b bs)
  have "covers (b + 1) stop (build_segs (stop + 1) (b + 1) bs)"
    using Cons.prems by (intro Cons.IH) auto
  with Cons.prems show ?case by simp
qed

lemma covers_merge:
  "covers start stop (xs @ a # b # ys) \<Longrightarrow> covers start stop (xs @ (fst a, snd b) # ys)"
  by (induction xs arbitrary: start) auto

lemma covers_hd: "covers start stop segs \<Longrightarrow> segs \<noteq> [] \<Longrightarrow> fst (hd segs) = start"
  by (cases segs) auto

lemma covers_last: "covers start stop segs \<Longrightarrow> segs \<noteq> [] \<Longrightarrow> snd (last segs) = stop"
  by (induction segs arbitrary: start) (auto split: if_splits)

lemma covers_contiguous:
  "covers start stop segs \<Longrightarrow> Suc k < length segs \<Longrightarrow> fst (segs ! Suc k) = snd (segs ! k) + 1"
proof (induction segs arbitrary: start k)
  case Nil
  then show ?case by simp
next
  case (Cons seg rest)
  show ?case
  proof (cases k)
    case 0
    with Cons.prems show ?thesis by (cases rest) auto
  next
    case (Suc k')
    with Cons.prems Cons.IH [of "snd seg + 1" k'] show ?thesis by simp
  qed
qed

lemma covers_nonempty_ranges: "covers start stop segs \<Longrightarrow> list_all (\<lambda>seg. fst seg \<le> snd seg) segs"
  by (induction segs arbitrary: start) auto

lemma covers_bounds:
  "covers start stop segs \<Longrightarrow> seg \<in> set segs \<Longrightarrow> start \<le> fst seg \<and> snd seg \<le> stop"
  by (induction segs arbitrary: start) force+

lemma upto_append: "i \<le> j \<Longrightarrow> j \<le> k \<Longrightarrow> [i..j] @ [j + 1..k] = [i..k]"
  by (rule upto_split2 [symmetric])

lemma covers_concat:
  "covers start stop segs \<Longrightarrow> concat (map (\<lambda>seg. [fst seg..snd seg]) segs) = [start..stop]"
proof (induction segs arbitrary: start)
  case Nil
  then show ?case by simp
next
  case (Cons seg rest)
  then have "concat (map (\<lambda>seg. [fst seg..snd seg]) rest) = [snd seg + 1..stop]" by simp
  with Cons.prems show ?case by (simp add: upto_append)
qed

lemma covers_range_invariant:
  assumes "covers 0 (int n - 1) segs" and "0 < n"
  shows "range_invariant n segs"
proof -
  have ne: "segs \<noteq> []" using assms by (cases segs) auto
  have "list_all (\<lambda>k. fst (segs ! Suc k) = snd (segs ! k) + 1) [0..<length segs - 1]"
    using covers_contiguous [OF assms(1)] by (simp add: list_all_iff)
  with ne assms(1) show ?thesis
    unfolding range_invariant_def
    by (simp add: covers_hd covers_last covers_nonempty_ranges covers_concat)
qed

lemma sum_word_counts_total:
  "\<forall>i\<in>set idxs. 0 \<le> i \<and> i < int (length sentences) \<Longrightarrow>
     \<exists>c. sum_word_counts sentences idxs = Inr c"
  by (induction idxs) (auto simp: py_index_def)

lemma seg_word_count_total:
  "0 \<le> fst seg \<Longrightarrow> snd seg < int (length sentences) \<Longrightarrow>
     \<exists>c. seg_word_count sentences seg = Inr c"
  unfolding seg_word_count_def by (rule sum_word_counts_total) auto

lemma enforce_body_total:
  assumes "covers 0 (int (length sentences) - 1) segs" and "i < length segs"
  shows "\<exists>st'. enforce_body sentences m (segs, i) = Inr st'"
proof -
  have "segs ! i \<in> set segs" using assms(2) by simp
  from covers_bounds [OF assms(1) this]
  obtain c where "seg_word_count sentences (segs ! i) = Inr c"
    using seg_word_count_total [of "segs ! i" sentences] by auto
  then show ?thesis by (simp add: enforce_body_def)
qed

lemma enforce_body_covers:
  assumes "covers start stop segs" and "i < length segs"
    and "enforce_body sentences m (segs, i) = Inr (segs', i')"
  shows "covers start stop segs'"
proof -
  from enforce_body_cases [OF assms(2,3)]
  consider "segs' = segs"
    | xs a b ys where "segs = xs @ a # b # ys" "segs' = xs @ (fst a, snd b) # ys"
    by blast
  then show ?thesis
  proof cases
    case 1
    with assms(1) show ?thesis by simp
  next
    case 2
    with assms(1) covers_merge [of start stop xs a b ys] show ?thesis by simp
  qed
qed

lemma enforce_states_covers:
  "covers start stop (fst st) \<Longrightarrow>
     \<forall>segs\<in>set (enforce_states sentences m st). covers start stop segs"
proof (induction sentences m st rule: enforce_states.induct)
  case (1 sentences min_words segs i)
  show ?case
  proof (cases "i < length segs")
    case False
    with "1.prems" show ?thesis by (simp add: enforce_states_exit)
  next
    case True
    show ?thesis
    proof (cases "enforce_body sentences min_words (segs, i)")
      case (Inl e)
      with True "1.prems" show ?thesis by (simp add: enforce_states_step)
    next
      case (Inr st')
      have "covers start stop (fst st')"
        using enforce_body_covers [of start stop segs i sentences min_words "fst st'" "snd st'"]
          "1.prems" True Inr by simp
      then have "\<forall>segs\<in>set (enforce_states sentences min_words st'). covers start stop segs"
        using "1.IH" [OF True Inr] by simp
      with True Inr "1.prems" show ?thesis by (simp add: enforce_states_step)
    qed
  qed
qed

lemma enforce_loop_total:
  "covers 0 (int (length sentences) - 1) (fst st) \<Longrightarrow>
     enforce_loop sentences m st = Inr (last (enforce_states sentences m st))"
proof (induction sentences m st rule: enforce_loop.induct)
  case (1 sentences min_words segs i)
  show ?case
  proof (cases "i < length segs")
    case False
    then show ?thesis by (simp add: enforce_states_exit enforce_loop_exit)
  next
    case True
    from enforce_body_total [of sentences segs i min_words] "1.prems" True
    obtain st' where body: "enforce_body sentences min_words (segs, i) = Inr st'" by auto
    have "covers 0 (int (length sentences) - 1) (fst st')"
      using enforce_body_covers [of 0 _ segs i sentences min_words "fst st'" "snd st'"]
        "1.prems" True body by simp
    then have IH: "enforce_loop sentences min_words st'
                     = Inr (last (enforce_states sentences min_words st'))"
      using "1.IH" [OF True body] by simp
    have "enforce_states sentences min_words st' \<noteq> []"
      by (cases st') (simp add: enforce_states.simps)
    with True body IH show ?thesis
      by (simp add: enforce_states_step enforce_loop_step)
  qed
qed

text \<open>
  C5. For a unit list of length \<open>n \<ge> 1\<close> and strictly ascending candidate boundaries in
  \<open>[0, n-2]\<close>, every range list the Enforcer holds (the list as materialized, and the list
  after every pass of the merge loop, so after every single merge) is a list of contiguous,
  ascending, non-empty inclusive ranges that partitions \<open>[0, n-1]\<close>: the first start is \<open>0\<close>,
  the last end is \<open>n-1\<close>, every next start is the previous end plus \<open>1\<close>, and the ranges
  enumerate \<open>0, ..., n-1\<close> once each. The Enforcer returns the last of these lists.
\<close>

theorem enforce_ranges_partition:
  assumes "1 \<le> length units"
    and "sorted_wrt (<) boundaries"
    and "\<forall>b\<in>set boundaries. 0 \<le> b \<and> b \<le> int (length units) - 2"
  shows "(\<forall>segs\<in>set (enforce_states units min_words
                         (build_segs (int (length units)) 0 boundaries, 0)).
            range_invariant (length units) segs)
       \<and> hd (enforce_states units min_words (build_segs (int (length units)) 0 boundaries, 0))
           = build_segs (int (length units)) 0 boundaries
       \<and> enforce_min_segment_length units boundaries min_words
           = Inr (last (enforce_states units min_words
                          (build_segs (int (length units)) 0 boundaries, 0)))"
proof -
  let ?n = "int (length units)"
  let ?init = "build_segs ?n 0 boundaries"
  have "covers 0 (?n - 1) (build_segs ((?n - 1) + 1) 0 boundaries)"
    using assms by (intro covers_build_segs) auto
  then have init: "covers 0 (?n - 1) ?init" by simp
  have cov: "\<forall>segs\<in>set (enforce_states units min_words (?init, 0)). covers 0 (?n - 1) segs"
    using enforce_states_covers [of 0 "?n - 1" "(?init, 0)"] init by simp
  have a: "\<forall>segs\<in>set (enforce_states units min_words (?init, 0)).
                  range_invariant (length units) segs"
  proof
    fix segs
    assume "segs \<in> set (enforce_states units min_words (?init, 0))"
    with cov have "covers 0 (?n - 1) segs" by blast
    moreover have "0 < length units" using assms(1) by linarith
    ultimately show "range_invariant (length units) segs"
      by (rule covers_range_invariant)
  qed
  have b: "hd (enforce_states units min_words (?init, 0)) = ?init"
    by (simp add: enforce_states.simps)
  have c: "enforce_min_segment_length units boundaries min_words
             = Inr (last (enforce_states units min_words (?init, 0)))"
    unfolding enforce_min_segment_length_def
    using enforce_loop_total [of units "(?init, 0)"] init by simp
  from a b c show ?thesis by blast
qed

text \<open>
  C4. When \<open>enforce_min_segment_length\<close> returns, either exactly one range remains or every
  range has a word count of at least \<open>min_segment_words\<close>; this holds for every unit list
  and every candidate boundary list. For strictly ascending boundaries in \<open>[0, n-2]\<close> over
  \<open>n \<ge> 1\<close> units it does return (no index is out of range).
\<close>

theorem enforce_min_segment_length_min_size:
  "(\<forall>segs. enforce_min_segment_length units boundaries min_words = Inr segs
       \<longrightarrow> length segs = 1 \<or> list_all (meets_min units min_words) segs)
   \<and> (1 \<le> length units \<and> sorted_wrt (<) boundaries
        \<and> (\<forall>b\<in>set boundaries. 0 \<le> b \<and> b \<le> int (length units) - 2)
       \<longrightarrow> (\<exists>segs. enforce_min_segment_length units boundaries min_words = Inr segs))"
proof (intro conjI allI impI)
  fix segs
  assume "enforce_min_segment_length units boundaries min_words = Inr segs"
  then have "enforce_loop units min_words (build_segs (int (length units)) 0 boundaries, 0) = Inr segs"
    by (simp add: enforce_min_segment_length_def)
  then show "length segs = 1 \<or> list_all (meets_min units min_words) segs"
    by (rule enforce_loop_min_size) simp
next
  assume h: "1 \<le> length units \<and> sorted_wrt (<) boundaries
        \<and> (\<forall>b\<in>set boundaries. 0 \<le> b \<and> b \<le> int (length units) - 2)"
  let ?n = "int (length units)"
  have "covers 0 (?n - 1) (build_segs ((?n - 1) + 1) 0 boundaries)"
    using h by (intro covers_build_segs) auto
  then have "covers 0 (?n - 1) (build_segs ?n 0 boundaries)" by simp
  then show "\<exists>segs. enforce_min_segment_length units boundaries min_words = Inr segs"
    unfolding enforce_min_segment_length_def
    using enforce_loop_total [of units "(build_segs ?n 0 boundaries, 0)"] by simp
qed

lemmas enforcer_run_simps =
  enforce_min_segment_length_def enforce_body_def seg_word_count_def py_index_def pop_def
  word_count_def py_split_def is_space_def meets_min_def
  enforce_loop_step enforce_loop_exit enforce_states_step enforce_states_exit
  upt_conv_Cons upto_rec1 numeral_eq_Suc Let_def

theorem enforce_ranges_partition_witness:
  "enforce_states [''a b c'', ''d'', ''e f'', ''g h i j'', ''k''] 3 (build_segs 5 0 [0, 2, 3], 0)
     = [[(0, 0), (1, 2), (3, 3), (4, 4)], [(0, 0), (1, 2), (3, 3), (4, 4)],
        [(0, 0), (1, 2), (3, 3), (4, 4)], [(0, 0), (1, 2), (3, 3), (4, 4)],
        [(0, 0), (1, 2), (3, 4)], [(0, 0), (1, 2), (3, 4)]]
   \<and> range_invariant 5 [(0, 0), (1, 2), (3, 3), (4, 4)]
   \<and> range_invariant 5 [(0, 0), (1, 2), (3, 4)]
   \<and> enforce_min_segment_length [''a b c'', ''d'', ''e f'', ''g h i j'', ''k''] [0, 2, 3] 3
       = Inr [(0, 0), (1, 2), (3, 4)]"
proof -
  let ?units = "[''a b c'', ''d'', ''e f'', ''g h i j'', ''k'']"
  have h1: "1 \<le> length ?units" by simp
  have h2: "sorted_wrt (<) [0, 2, 3 :: int]" by simp
  have h3: "\<forall>b\<in>set [0, 2, 3 :: int]. 0 \<le> b \<and> b \<le> int (length ?units) - 2" by simp
  have states: "enforce_states ?units 3 (build_segs 5 0 [0, 2, 3], 0)
     = [[(0, 0), (1, 2), (3, 3), (4, 4)], [(0, 0), (1, 2), (3, 3), (4, 4)],
        [(0, 0), (1, 2), (3, 3), (4, 4)], [(0, 0), (1, 2), (3, 3), (4, 4)],
        [(0, 0), (1, 2), (3, 4)], [(0, 0), (1, 2), (3, 4)]]"
    by (simp add: enforcer_run_simps)
  from enforce_ranges_partition [OF h1 h2 h3, of 3] states show ?thesis
    by (simp add: numeral_eq_Suc)
qed

theorem enforce_min_segment_length_min_size_witness:
  "enforce_min_segment_length [''a b c'', ''d'', ''e f'', ''g h i j'', ''k''] [0, 2, 3] 3
     = Inr [(0, 0), (1, 2), (3, 4)]
   \<and> list_all (meets_min [''a b c'', ''d'', ''e f'', ''g h i j'', ''k''] 3) [(0, 0), (1, 2), (3, 4)]
   \<and> length [(0, 0), (1, 2), (3 :: int, 4 :: int)] \<noteq> 1"
proof -
  let ?units = "[''a b c'', ''d'', ''e f'', ''g h i j'', ''k'']"
  have run: "enforce_min_segment_length ?units [0, 2, 3] 3 = Inr [(0, 0), (1, 2), (3, 4)]"
    by (simp add: enforcer_run_simps)
  from enforce_min_segment_length_min_size [of ?units "[0, 2, 3]" 3] run
  show ?thesis by simp
qed

theorem enforce_loop_terminates_witness:
  "enforce_fuel 9 [''a b c'', ''d'', ''e f'', ''g h i j'', ''k''] 3 (build_segs 5 0 [0, 2, 3], 0)
     = Some (Inr [(0, 0), (1, 2), (3, 4)])
   \<and> enforce_body [''a b c'', ''d'', ''e f'', ''g h i j'', ''k''] 3
         ([(0, 0), (1, 2), (3, 3), (4, 4)], 3) = Inr ([(0, 0), (1, 2), (3, 4)], 2)
   \<and> length [(0, 0), (1, 2), (3, 3), (4 :: int, 4 :: int)]
       = Suc (length [(0, 0), (1, 2), (3 :: int, 4 :: int)])"
proof -
  let ?units = "[''a b c'', ''d'', ''e f'', ''g h i j'', ''k'']"
  have run: "enforce_min_segment_length ?units [0, 2, 3] 3 = Inr [(0, 0), (1, 2), (3, 4)]"
    by (simp add: enforcer_run_simps)
  have body: "enforce_body ?units 3 ([(0, 0), (1, 2), (3, 3), (4, 4)], 3)
                = Inr ([(0, 0), (1, 2), (3, 4)], 2)"
    by (simp add: enforcer_run_simps)
  from enforce_loop_terminates [of "[0, 2, 3]" ?units 3] run body
  show ?thesis by simp
qed

section \<open>Segments returned by the whole pipeline\<close>

lemma last_dropWhile_nonempty: "dropWhile P xs \<noteq> [] \<Longrightarrow> last (dropWhile P xs) = last xs"
  by (metis last_appendR takeWhile_dropWhile_id)

lemma strip_trimmed:
  assumes "strip s \<noteq> []"
  shows "trimmed (strip s)"
proof -
  let ?d = "dropWhile is_space s"
  let ?e = "dropWhile is_space (rev ?d)"
  have e: "?e \<noteq> []" using assms by (simp add: strip_def)
  then have "rev ?d \<noteq> []" by (cases "rev ?d") auto
  then have d: "?d \<noteq> []" by simp
  have "\<not> is_space (hd ?e)" using e by (rule hd_dropWhile)
  then have l: "\<not> is_space (last (strip s))" using e by (simp add: strip_def last_rev)
  have "last ?e = last (rev ?d)" using e by (rule last_dropWhile_nonempty)
  then have "hd (strip s) = hd ?d" using e d by (simp add: strip_def hd_rev last_rev)
  moreover have "\<not> is_space (hd ?d)" using d by (rule hd_dropWhile)
  ultimately show ?thesis using assms l by (simp add: trimmed_def)
qed

lemma strip_id:
  assumes "trimmed s"
  shows "strip s = s"
proof -
  have d: "dropWhile is_space s = s" using assms by (cases s) (auto simp: trimmed_def)
  have "rev s \<noteq> []" "\<not> is_space (hd (rev s))" using assms by (auto simp: trimmed_def hd_rev)
  then have "dropWhile is_space (rev s) = rev s" by (cases "rev s") auto
  with d show ?thesis by (simp add: strip_def)
qed

lemma strip_nonempty:
  assumes "\<exists>c\<in>set x. \<not> is_space c"
  shows "strip x \<noteq> []"
proof -
  let ?d = "dropWhile is_space x"
  have d: "?d \<noteq> []" using assms by (simp add: dropWhile_eq_Nil_conv)
  then have "\<not> is_space (hd ?d)" by (rule hd_dropWhile)
  moreover have "hd ?d \<in> set (rev ?d)" using d by simp
  ultimately have "dropWhile is_space (rev ?d) \<noteq> []"
    unfolding dropWhile_eq_Nil_conv by blast
  then show ?thesis by (simp add: strip_def)
qed

lemma trimmed_has_word: "trimmed s \<Longrightarrow> \<exists>c\<in>set s. \<not> is_space c"
  by (cases s) (auto simp: trimmed_def)

lemma join_nonempty: "xs \<noteq> [] \<Longrightarrow> \<forall>x\<in>set xs. x \<noteq> [] \<Longrightarrow> join xs \<noteq> []"
  by (induction xs rule: join.induct) auto

lemma join_trimmed:
  "xs \<noteq> [] \<Longrightarrow> \<forall>x\<in>set xs. trimmed x \<Longrightarrow> trimmed (join xs)"
proof (induction xs rule: join.induct)
  case 1
  then show ?case by simp
next
  case (2 x)
  then show ?case by simp
next
  case (3 x y ys)
  then have t: "trimmed (join (y # ys))" by simp
  have x: "trimmed x" using "3.prems" by simp
  from t x show ?case by (simp add: trimmed_def)
qed

lemma split_into_sentences_trimmed: "\<forall>s\<in>set (split_into_sentences t). trimmed s"
  by (auto simp: split_into_sentences_def strip_trimmed)

lemma strip_joined_trimmed:
  assumes "trimmed s"
  shows "trimmed (strip (buffer @ '' '' @ s))"
proof -
  have "\<exists>c\<in>set (buffer @ '' '' @ s). \<not> is_space c"
    using trimmed_has_word [OF assms] by auto
  then show ?thesis by (intro strip_trimmed strip_nonempty)
qed

lemma merge_loop_trimmed:
  assumes "\<forall>u\<in>set merged. trimmed u" and "buffer = [] \<or> trimmed buffer"
    and "\<forall>s\<in>set rest. trimmed s"
  shows "\<forall>u\<in>set (merge_loop m merged buffer rest). trimmed u"
  using assms
proof (induction rest arbitrary: merged buffer)
  case Nil
  then show ?case by (auto simp: strip_id)
next
  case (Cons s rest)
  have s: "trimmed s" using Cons.prems(3) by simp
  have rest: "\<forall>s\<in>set rest. trimmed s" using Cons.prems(3) by simp
  show ?case
  proof (cases "word_count s < m")
    case True
    have "\<forall>u\<in>set (merge_loop m merged (strip (buffer @ '' '' @ s)) rest). trimmed u"
      using Cons.prems(1) strip_joined_trimmed [OF s] rest by (intro Cons.IH) auto
    with True show ?thesis by simp
  next
    case False
    show ?thesis
    proof (cases "buffer = []")
      case True
      have "\<forall>u\<in>set (merge_loop m (merged @ [s]) [] rest). trimmed u"
        using Cons.prems(1) s rest by (intro Cons.IH) auto
      with True False show ?thesis by simp
    next
      case nonempty: False
      then have "trimmed buffer" using Cons.prems(2) by simp
      then have "trimmed (strip buffer)" by (simp add: strip_id)
      then have "\<forall>u\<in>set (merge_loop m ((merged @ [strip buffer]) @ [s]) [] rest). trimmed u"
        using Cons.prems(1) s rest by (intro Cons.IH) auto
      with nonempty False show ?thesis by simp
    qed
  qed
qed

lemma merge_loop_nonempty:
  assumes "merged \<noteq> [] \<or> buffer \<noteq> []" and "\<forall>s\<in>set rest. trimmed s"
  shows "merge_loop m merged buffer rest \<noteq> []"
  using assms
proof (induction rest arbitrary: merged buffer)
  case Nil
  then show ?case by auto
next
  case (Cons s rest)
  have s: "trimmed s" using Cons.prems(2) by simp
  have rest: "\<forall>s\<in>set rest. trimmed s" using Cons.prems(2) by simp
  have j: "strip (buffer @ '' '' @ s) \<noteq> []"
    using strip_joined_trimmed [OF s, of buffer] by (simp add: trimmed_def)
  have a: "merge_loop m merged (strip (buffer @ '' '' @ s)) rest \<noteq> []"
    using j rest by (intro Cons.IH) auto
  have b: "merge_loop m ((merged @ [strip buffer]) @ [s]) [] rest \<noteq> []"
    using rest by (intro Cons.IH) auto
  have c: "merge_loop m (merged @ [s]) [] rest \<noteq> []"
    using rest by (intro Cons.IH) auto
  from a b c show ?case by simp
qed

lemma merge_short_sentences_trimmed:
  "\<forall>s\<in>set sentences. trimmed s \<Longrightarrow> \<forall>u\<in>set (merge_short_sentences sentences m). trimmed u"
  unfolding merge_short_sentences_def by (rule merge_loop_trimmed) auto

lemma merge_short_sentences_nonempty:
  assumes "sentences \<noteq> []" and "\<forall>s\<in>set sentences. trimmed s"
  shows "merge_short_sentences sentences m \<noteq> []"
proof -
  obtain s rest where sr: "sentences = s # rest" using assms(1) by (cases sentences) auto
  then have s: "trimmed s" and rest: "\<forall>s\<in>set rest. trimmed s" using assms(2) by auto
  have j: "strip ([] @ '' '' @ s) \<noteq> []"
    using strip_joined_trimmed [OF s, of "[]"] by (simp add: trimmed_def)
  have a: "merge_loop m [] (strip ([] @ '' '' @ s)) rest \<noteq> []"
    using j rest by (intro merge_loop_nonempty) auto
  have c: "merge_loop m ([] @ [s]) [] rest \<noteq> []"
    using rest by (intro merge_loop_nonempty) auto
  from a c sr show ?thesis by (simp add: merge_short_sentences_def)
qed

lemma concat_batch_slices: "0 < k \<Longrightarrow> concat (batch_slices k xs) = xs"
proof (induction k xs rule: batch_slices.induct)
  case (1 batch_size xs)
  show ?case
  proof (cases "xs = []")
    case True
    then show ?thesis by (simp add: batch_slices_Nil)
  next
    case False
    with "1.prems" have "concat (batch_slices batch_size (drop batch_size xs)) = drop batch_size xs"
      by (intro "1.IH") auto
    with False "1.prems" show ?thesis by (simp add: batch_slices_step)
  qed
qed

lemma batch_slices_nonempty: "0 < k \<Longrightarrow> xs \<noteq> [] \<Longrightarrow> batch_slices k xs \<noteq> []"
  by (simp add: batch_slices_step)

lemma encode_batches_ok:
  assumes "adapter_ok ad width"
  shows "\<exists>embs evs. encode_batches ad embedder batches = (Inr embs, evs)
           \<and> length embs = length batches
           \<and> length (concat embs) = length (concat batches)
           \<and> (\<forall>r\<in>set (concat embs). length r = width)"
proof (induction batches)
  case Nil
  then show ?case by simp
next
  case (Cons batch rest)
  from assms obtain rows where rows: "encode ad embedder batch = Inr rows"
    "length rows = length batch" "\<forall>r\<in>set rows. length r = width"
    unfolding adapter_ok_def by blast
  from Cons obtain embs evs where rest: "encode_batches ad embedder rest = (Inr embs, evs)"
    "length embs = length rest"
    "length (concat embs) = length (concat rest)" "\<forall>r\<in>set (concat embs). length r = width"
    by blast
  from rows rest show ?case by auto
qed

lemma batch_encode_ok:
  assumes "adapter_ok ad width" and "sentences \<noteq> []"
  shows "\<exists>rows evs. batch_encode ad embedder sentences 64 = (Inr rows, evs)
           \<and> length rows = length sentences"
proof -
  let ?batches = "batch_slices 64 sentences"
  from encode_batches_ok [OF assms(1), of embedder ?batches]
  obtain embs evs where e: "encode_batches ad embedder ?batches = (Inr embs, evs)"
    "length embs = length ?batches"
    "length (concat embs) = length (concat ?batches)" "\<forall>r\<in>set (concat embs). length r = width"
    by blast
  have ne: "embs \<noteq> []" using e(2) batch_slices_nonempty [of 64 sentences] assms(2) by auto
  have len: "length (concat embs) = length sentences"
    using e(3) concat_batch_slices [of 64 sentences] by simp
  then have "length (concat embs) \<noteq> 0" using assms(2) by simp
  then have "concat embs \<noteq> []" unfolding length_0_conv .
  then have "hd (concat embs) \<in> set (concat embs)" by (rule hd_in_set)
  then have "list_all (\<lambda>r. length r = length (hd (concat embs))) (concat embs)"
    using e(4) unfolding list_all_iff by metis
  then have "np_vstack embs = Inr (concat embs)" using ne by (simp add: np_vstack_def)
  with e(1) len show ?thesis by (simp add: batch_encode_def)
qed

lemma length_cosine_similarities: "length (cosine_similarities rows) = length rows - 1"
  by (induction rows rule: cosine_similarities.induct) auto

lemma smooth_keeps_length:
  assumes "array \<noteq> []" and "window \<le> 1 \<or> odd window"
  shows "\<exists>out. smooth array window = Inr out \<and> length out = length array"
proof (cases "window \<le> 1")
  case True
  then show ?thesis by (simp add: smooth_noop)
next
  case False
  with assms show ?thesis by (intro smooth_length_odd) auto
qed

lemma find_boundaries_in_range:
  "\<forall>b\<in>set (find_boundaries xs t). 0 \<le> b \<and> b < int (length xs)"
  by (auto simp: find_boundaries_eq_lows np_where_lt_def)

lemma find_boundaries_ascending: "sorted_wrt (<) (find_boundaries xs t)"
  by (simp add: find_boundaries_eq_lows np_where_lt_ascending)

lemma enforce_min_segment_length_covers:
  assumes "1 \<le> length units" and "sorted_wrt (<) boundaries"
    and "\<forall>b\<in>set boundaries. 0 \<le> b \<and> b \<le> int (length units) - 2"
  shows "\<exists>segs. enforce_min_segment_length units boundaries min_words = Inr segs
           \<and> covers 0 (int (length units) - 1) segs"
proof -
  let ?n = "int (length units)"
  let ?init = "(build_segs ?n 0 boundaries, 0 :: nat)"
  have "covers 0 (?n - 1) (build_segs ((?n - 1) + 1) 0 boundaries)"
    using assms by (intro covers_build_segs) auto
  then have init: "covers 0 (?n - 1) (fst ?init)" by simp
  have r: "enforce_min_segment_length units boundaries min_words
             = Inr (last (enforce_states units min_words ?init))"
    unfolding enforce_min_segment_length_def using enforce_loop_total [OF init] .
  have "enforce_states units min_words ?init \<noteq> []" by (simp add: enforce_states.simps)
  then have "last (enforce_states units min_words ?init) \<in> set (enforce_states units min_words ?init)"
    by (rule last_in_set)
  then have "covers 0 (?n - 1) (last (enforce_states units min_words ?init))"
    using enforce_states_covers [OF init, of units min_words] by blast
  with r show ?thesis by blast
qed

lemma py_slice_in_range:
  assumes "0 \<le> s" and "s \<le> e" and "e < int (length xs)"
  shows "py_slice xs s (e + 1) = take (nat (e + 1 - s)) (drop (nat s) xs)"
    and "py_slice xs s (e + 1) \<noteq> []"
    and "set (py_slice xs s (e + 1)) \<subseteq> set xs"
proof -
  show eq: "py_slice xs s (e + 1) = take (nat (e + 1 - s)) (drop (nat s) xs)"
    using assms by (simp add: py_slice_def Let_def min_def)
  show "py_slice xs s (e + 1) \<noteq> []"
    using assms unfolding eq by auto
  show "set (py_slice xs s (e + 1)) \<subseteq> set xs"
    unfolding eq by (meson order_trans set_drop_subset set_take_subset)
qed

lemma assemble_trimmed:
  assumes "covers 0 (int (length sentences) - 1) segs" and "\<forall>s\<in>set sentences. trimmed s"
  shows "\<forall>t\<in>set (assemble sentences segs). trimmed t"
proof
  fix t assume "t \<in> set (assemble sentences segs)"
  then obtain seg where seg: "seg \<in> set segs"
    and t: "t = strip (join (py_slice sentences (fst seg) (snd seg + 1)))"
    by (auto simp: assemble_def)
  have le: "fst seg \<le> snd seg"
    using covers_nonempty_ranges [OF assms(1)] seg by (simp add: list_all_iff)
  have b: "0 \<le> fst seg" "snd seg < int (length sentences)"
    using covers_bounds [OF assms(1) seg] by auto
  note sl = py_slice_in_range [OF b(1) le b(2)]
  have "trimmed (join (py_slice sentences (fst seg) (snd seg + 1)))"
    using sl(2,3) assms(2) by (intro join_trimmed) auto
  then show "trimmed t" unfolding t by (simp add: strip_id)
qed

text \<open>
  With an embedding library that keeps its contract and a window that is odd or at most
  \<open>1\<close>, a transcript with at least one sentence gives at least one segment, and every
  segment is a trimmed, non-empty string.
\<close>

lemma segment_transcript_segments_trimmed:
  assumes ok: "adapter_ok ad width"
    and ne: "split_into_sentences transcript \<noteq> []"
    and win: "smooth_window \<le> 1 \<or> odd smooth_window"
  shows "\<exists>segs evs.
           segment_transcript ad transcript merge_min_words smooth_window sim_threshold
             min_segment_words embed_model = (Inr segs, evs)
         \<and> segs \<noteq> [] \<and> (\<forall>s\<in>set segs. trimmed s)"
proof -
  let ?units = "merge_short_sentences (split_into_sentences transcript) merge_min_words"
  have tr: "\<forall>u\<in>set ?units. trimmed u"
    using split_into_sentences_trimmed by (rule merge_short_sentences_trimmed)
  have une: "?units \<noteq> []"
    using ne split_into_sentences_trimmed by (rule merge_short_sentences_nonempty)
  show ?thesis
  proof (cases "length ?units \<le> 4")
    case True
    have "trimmed (join ?units)" using une tr by (rule join_trimmed)
    with True ne show ?thesis by (simp add: segment_transcript_def Let_def)
  next
    case False
    then have n: "5 \<le> length ?units" by simp
    from ok obtain embedder where load: "SentenceTransformer ad embed_model = Inr embedder"
      unfolding adapter_ok_def by blast
    from batch_encode_ok [OF ok une, of embedder]
    obtain rows evs where enc: "batch_encode ad embedder ?units 64 = (Inr rows, evs)"
      and lr: "length rows = length ?units" by blast
    let ?sims = "cosine_similarities rows"
    have ls: "length ?sims = length ?units - 1"
      using lr by (simp add: length_cosine_similarities)
    then have "?sims \<noteq> []" using n by auto
    from smooth_keeps_length [OF this win]
    obtain smoothed where sm: "smooth ?sims smooth_window = Inr smoothed"
      and lsm: "length smoothed = length ?sims" by blast
    let ?bs = "find_boundaries smoothed sim_threshold"
    have b1: "sorted_wrt (<) ?bs" by (rule find_boundaries_ascending)
    have b2: "\<forall>b\<in>set ?bs. 0 \<le> b \<and> b \<le> int (length ?units) - 2"
      using find_boundaries_in_range [of smoothed sim_threshold] lsm ls n by auto
    have n1: "1 \<le> length ?units" using n by simp
    from enforce_min_segment_length_covers [OF n1 b1 b2, of min_segment_words]
    obtain segs where enf: "enforce_min_segment_length ?units ?bs min_segment_words = Inr segs"
      and cov: "covers 0 (int (length ?units) - 1) segs" by blast
    have "segs \<noteq> []" using cov n by (cases segs) auto
    then have a1: "assemble ?units segs \<noteq> []" by (simp add: assemble_def)
    have a2: "\<forall>t\<in>set (assemble ?units segs). trimmed t"
      using cov tr by (rule assemble_trimmed)
    have "segment_transcript ad transcript merge_min_words smooth_window sim_threshold
            min_segment_words embed_model
          = (Inr (assemble ?units segs), LoadModel embed_model # evs)"
      using ne False load enc sm enf by (simp add: segment_transcript_def Let_def)
    with a1 a2 show ?thesis by blast
  qed
qed

text \<open>
  C10 (the code departs from the claim). Five six-word sentences, the default
  \<open>merge_min_words = 6\<close> and \<open>sim_threshold = 0.28\<close>, the even window \<open>smooth_window = 2\<close> and
  \<open>min_segment_words = 0\<close>; the last unit is embedded orthogonally to the others, so the last
  similarity is \<open>0\<close>. The smoothed series has five values for five units, its last index \<open>4\<close>
  becomes a boundary, the Enforcer builds the ranges \<open>(0, 4)\<close> and \<open>(5, 4)\<close>, and the second
  segment returned is the empty string.
\<close>

theorem segment_transcript_empty_segment:
  "segment_transcript keyword_adapter
     ''A a a a a a. B b b b b b. C c c c c c. D d d d d d. Z z z z z z.''
     6 2 0.28 0 ''all-MiniLM-L6-v2''
   = (Inr [''A a a a a a. B b b b b b. C c c c c c. D d d d d d. Z z z z z z.'', ''''],
      [LoadModel ''all-MiniLM-L6-v2'',
       Encode [''A a a a a a.'', ''B b b b b b.'', ''C c c c c c.'', ''D d d d d d.'',
               ''Z z z z z z.'']])"
  by (simp add: run_simps)

end
